theory Spec2Isabelle
  imports Main
begin

section \<open>Facility location with patterns: the notebook as a HOL program\<close>

text \<open>
  The notebook \<^verbatim>\<open>Facility_Location_Pattern.ipynb\<close> declares an instance
  \<^verbatim>\<open>(I, J, b, f, C, c)\<close>, enumerates the power set \<^verbatim>\<open>P\<close> of the customers,
  checks three assertions, creates a solver model, adds one binary variable per
  (facility, pattern) pair, computes the pattern costs, sets the objective, adds three
  families of equality constraints and calls \<^verbatim>\<open>optimize\<close>.

  \<^item> \<^verbatim>\<open>I\<close> and \<^verbatim>\<open>J\<close> are ranges; a range is the list of its elements, of type
    \<open>nat list\<close> (\<^verbatim>\<open>range(n)\<close> is \<open>[0..<n]\<close>).
  \<^item> The tuples \<^verbatim>\<open>b\<close>, \<^verbatim>\<open>f\<close> and \<^verbatim>\<open>C\<close> are lists of Python integers, \<open>int list\<close>.
  \<^item> The solver library keeps the constant of a linear expression in double precision:
    \<^verbatim>\<open>quicksum\<close> and \<^verbatim>\<open>f[i] + quicksum(...)\<close> round as doubles do, while Python's own
    \<^verbatim>\<open>sum\<close> adds integers exactly.
  \<^item> The dictionary \<^verbatim>\<open>c\<close> is the list of its items (key, value), whose keys are
    pairwise distinct; \<^verbatim>\<open>len\<close> counts its keys and a lookup of a key that is absent
    raises \<^verbatim>\<open>KeyError\<close>.
  \<^item> A pattern is a tuple of customers, \<open>nat list\<close>.
  \<^item> Every raise of the source is a value \<open>Inl e\<close> of a sum type.
  \<^item> The solver is outside the program: a run ends when \<^verbatim>\<open>optimize\<close> is called, and
    what the model asks of the solver is given by \<open>feasible\<close> and \<open>objective_value\<close>.
\<close>

subsection \<open>Exceptions, tuples and dictionaries\<close>

datatype error = AssertionError | IndexError | KeyError | TypeError | GurobiError

type_synonym pattern = "nat list"

type_synonym var = "nat \<times> pattern"

type_synonym conn_dict = "((nat \<times> nat) \<times> int) list"

text \<open>\<^verbatim>\<open>t[i]\<close> on a tuple, for an index that is not negative.\<close>

definition tuple_get :: "'a list \<Rightarrow> nat \<Rightarrow> error + 'a" where
  "tuple_get t i = (if i < length t then Inr (t ! i) else Inl IndexError)"

text \<open>\<^verbatim>\<open>len(d)\<close> on a dictionary given by its items: the number of its keys.\<close>

definition dict_len :: "('k \<times> 'v) list \<Rightarrow> nat" where
  "dict_len d = length (remdups (map fst d))"

text \<open>\<^verbatim>\<open>d[k]\<close> on a dictionary given by its items.\<close>

definition dict_get :: "('k \<times> 'v) list \<Rightarrow> 'k \<Rightarrow> error + 'v" where
  "dict_get d k = (case map_of d k of None \<Rightarrow> Inl KeyError | Some v \<Rightarrow> Inr v)"

text \<open>\<^verbatim>\<open>d[k]\<close> on a dictionary the program itself fills, held as a map.\<close>

definition map_get :: "('k \<rightharpoonup> 'v) \<Rightarrow> 'k \<Rightarrow> error + 'v" where
  "map_get d k = (case d k of None \<Rightarrow> Inl KeyError | Some v \<Rightarrow> Inr v)"

text \<open>
  A generator expression \<^verbatim>\<open>g(x) for x in xs\<close> consumed to its end: the values in
  order, or the first exception raised on the way.
\<close>

fun gen_list :: "('a \<Rightarrow> error + 'b) \<Rightarrow> 'a list \<Rightarrow> error + 'b list" where
  "gen_list g [] = Inr []"
| "gen_list g (x # xs) =
     (case g x of
        Inl e \<Rightarrow> Inl e
      | Inr v \<Rightarrow> (case gen_list g xs of Inl e \<Rightarrow> Inl e | Inr vs \<Rightarrow> Inr (v # vs)))"

text \<open>
  Python's built-in \<^verbatim>\<open>sum(...)\<close> over a generator of integers: it adds from the left
  starting at 0, exactly; on integers this is \<open>sum_list\<close>.
\<close>

definition sum_gen :: "('a \<Rightarrow> error + int) \<Rightarrow> 'a list \<Rightarrow> error + int" where
  "sum_gen g xs = (case gen_list g xs of Inl e \<Rightarrow> Inl e | Inr vs \<Rightarrow> Inr (sum_list vs))"

subsection \<open>Double-precision values\<close>

text \<open>
  The solver library holds the constant of a linear expression as a double. Every double
  that arises in the notebook is the conversion of a Python integer or a sum of such
  doubles, so its value is an integer or an infinity; \<open>NaN\<close> completes the type.
\<close>

datatype double = Finite int | PosInf | NegInf | NaN

text \<open>The number of binary digits of a positive integer, and powers of two.\<close>

function bit_length :: "int \<Rightarrow> int" where
  "bit_length n = (if n \<le> 0 then 0 else 1 + bit_length (n div 2))"
  by pat_completeness auto
termination
  by (relation "measure nat") auto

declare bit_length.simps [simp del]

function pow2 :: "int \<Rightarrow> int" where
  "pow2 k = (if k \<le> 0 then 1 else 2 * pow2 (k - 1))"
  by pat_completeness auto
termination
  by (relation "measure nat") auto

declare pow2.simps [simp del]

text \<open>
  An integer of more than 53 binary digits rounded to 53 significant digits, to the nearest
  and on a tie to the even one.
\<close>

definition round_half_even :: "int \<Rightarrow> int" where
  "round_half_even n =
     (let a = \<bar>n\<bar>;
          k = bit_length a - 53;
          q = a div pow2 k;
          r = a mod pow2 k;
          h = pow2 (k - 1)
      in sgn n * ((if h < r \<or> (r = h \<and> odd q) then q + 1 else q) * pow2 k))"

text \<open>
  The double nearest to an integer. Below \<open>2 ^ 53 = 9007199254740992\<close> in magnitude the
  integer is a double itself; a value that rounds to \<open>2 ^ 1024\<close> or beyond is an infinity.
\<close>

definition to_double :: "int \<Rightarrow> double" where
  "to_double n =
     (if \<bar>n\<bar> < 9007199254740992 then Finite n
      else (let v = round_half_even n in
            if bit_length \<bar>v\<bar> \<le> 1024 then Finite v
            else if 0 < n then PosInf else NegInf))"

text \<open>
  A Python integer as an operand of the library's arithmetic: it is converted to a
  double, and an integer beyond the double range is refused with \<^verbatim>\<open>TypeError\<close>.
\<close>

definition float_of_int :: "int \<Rightarrow> error + double" where
  "float_of_int n = (case to_double n of Finite v \<Rightarrow> Inr (Finite v) | _ \<Rightarrow> Inl TypeError)"

text \<open>Addition of doubles: the exact sum, rounded.\<close>

fun dadd :: "double \<Rightarrow> double \<Rightarrow> double" where
  "dadd (Finite a) (Finite b) = to_double (a + b)"
| "dadd NaN y = NaN"
| "dadd x NaN = NaN"
| "dadd PosInf NegInf = NaN"
| "dadd NegInf PosInf = NaN"
| "dadd PosInf y = PosInf"
| "dadd x PosInf = PosInf"
| "dadd NegInf y = NegInf"
| "dadd x NegInf = NegInf"

text \<open>
  \<^verbatim>\<open>quicksum(g(x) for x in xs)\<close> over a generator of integers: the constant of the
  expression starts at 0.0, and each value is converted and added as it is produced.
\<close>

fun quicksum_from :: "double \<Rightarrow> ('a \<Rightarrow> error + int) \<Rightarrow> 'a list \<Rightarrow> error + double" where
  "quicksum_from acc g [] = Inr acc"
| "quicksum_from acc g (x # xs) =
     (case g x of
        Inl e \<Rightarrow> Inl e
      | Inr v \<Rightarrow>
          (case float_of_int v of
             Inl e \<Rightarrow> Inl e
           | Inr d \<Rightarrow> quicksum_from (dadd acc d) g xs))"

definition quicksum :: "('a \<Rightarrow> error + int) \<Rightarrow> 'a list \<Rightarrow> error + double" where
  "quicksum g xs = quicksum_from (Finite 0) g xs"

text \<open>
  A \<^verbatim>\<open>for\<close> loop whose body updates a state and may raise: the loop stops at the
  first exception.
\<close>

fun for_each :: "('a \<Rightarrow> 's \<Rightarrow> error + 's) \<Rightarrow> 'a list \<Rightarrow> 's \<Rightarrow> error + 's" where
  "for_each body [] s = Inr s"
| "for_each body (x # xs) s =
     (case body x s of Inl e \<Rightarrow> Inl e | Inr s' \<Rightarrow> for_each body xs s')"

subsection \<open>The pattern enumerator\<close>

text \<open>
  \<^verbatim>\<open>itertools.combinations(xs, r)\<close>: the \<open>r\<close>-element subsequences of \<open>xs\<close>, in
  lexicographic order of the positions chosen.
\<close>

fun combinations :: "'a list \<Rightarrow> nat \<Rightarrow> 'a list list" where
  "combinations xs 0 = [[]]"
| "combinations [] (Suc r) = []"
| "combinations (x # xs) (Suc r) =
     map ((#) x) (combinations xs r) @ combinations xs (Suc r)"

text \<open>
  \<^verbatim>\<open>P = tuple(chain.from_iterable(combinations(J, r) for r in range(len(J)+1)))\<close>
\<close>

definition patterns :: "'a list \<Rightarrow> 'a list list" where
  "patterns J = concat (map (combinations J) [0..<length J + 1])"

subsection \<open>The solver model\<close>

text \<open>
  The model object records what the notebook hands to the solver: the binary variables
  in the order of \<^verbatim>\<open>addVar\<close>, the terms \<open>coefficient * variable\<close> of the objective
  (to be minimised), and the constraints in the order of \<^verbatim>\<open>addConstr\<close>. The variable
  \<^verbatim>\<open>l[i, p]\<close> is identified with its key \<open>(i, p)\<close>. Every constraint of the notebook
  has the form \<^verbatim>\<open>quicksum(variables) == constant\<close>.
\<close>

datatype constr = Eq "var list" int

record model =
  vars :: "var list"
  objective :: "(int \<times> var) list"
  constrs :: "constr list"

definition Model :: model where
  "Model = \<lparr>vars = [], objective = [], constrs = []\<rparr>"

definition addVar :: "var \<Rightarrow> model \<Rightarrow> model" where
  "addVar v m = m\<lparr>vars := vars m @ [v]\<rparr>"

definition setObjective :: "(int \<times> var) list \<Rightarrow> model \<Rightarrow> model" where
  "setObjective ts m = m\<lparr>objective := ts\<rparr>"

definition addConstr :: "constr \<Rightarrow> model \<Rightarrow> model" where
  "addConstr k m = m\<lparr>constrs := constrs m @ [k]\<rparr>"

subsection \<open>The cells of the notebook\<close>

text \<open>The data cell: \<^verbatim>\<open>P\<close> is computed, then the three assertions run.\<close>

definition data_cell ::
  "nat list \<Rightarrow> nat list \<Rightarrow> int list \<Rightarrow> int list \<Rightarrow> int list \<Rightarrow> conn_dict \<Rightarrow> error + pattern list"
where
  "data_cell I J b f C c =
     (let P = patterns J in
      if \<not> (length J = length b) then Inl AssertionError
      else if \<not> (length I = length f \<and> length f = length C) then Inl AssertionError
      else if \<not> (dict_len c = length I * length J) then Inl AssertionError
      else Inr P)"

text \<open>The keys \<open>(i, p)\<close> in the order of \<^verbatim>\<open>for i in I for p in P\<close>.\<close>

definition pairs :: "nat list \<Rightarrow> pattern list \<Rightarrow> var list" where
  "pairs I P = concat (map (\<lambda>i. map (Pair i) P) I)"

text \<open>\<^verbatim>\<open>for i in I: for p in P: l[i, p] = m.addVar(vtype=GRB.BINARY, ...)\<close>\<close>

definition vars_cell :: "nat list \<Rightarrow> pattern list \<Rightarrow> model \<Rightarrow> model" where
  "vars_cell I P m = fold (\<lambda>i. fold (\<lambda>p. addVar (i, p)) P) I m"

text \<open>
  The right-hand side of the assignment to \<^verbatim>\<open>cost[i, p]\<close>: 0 when \<^verbatim>\<open>len(p) == 0\<close>,
  else \<^verbatim>\<open>f[i] + quicksum(c[i, j] for j in p)\<close>. Its left operand is evaluated first, then
  the \<^verbatim>\<open>quicksum\<close>; the addition converts \<^verbatim>\<open>f[i]\<close> and adds it to the constant of the
  expression. The value is a double (the 0 of the empty pattern is the integer 0,
  held here as \<open>Finite 0\<close>).
\<close>

definition pattern_cost :: "int list \<Rightarrow> conn_dict \<Rightarrow> nat \<Rightarrow> pattern \<Rightarrow> error + double" where
  "pattern_cost f c i p =
     (if length p = 0 then Inr (Finite 0)
      else (case tuple_get f i of
              Inl e \<Rightarrow> Inl e
            | Inr fi \<Rightarrow>
                (case quicksum (\<lambda>j. dict_get c (i, j)) p of
                   Inl e \<Rightarrow> Inl e
                 | Inr s \<Rightarrow>
                     (case float_of_int fi of
                        Inl e \<Rightarrow> Inl e
                      | Inr d \<Rightarrow> Inr (dadd s d)))))"

definition cost_cell ::
  "int list \<Rightarrow> conn_dict \<Rightarrow> nat list \<Rightarrow> pattern list \<Rightarrow> error + (var \<rightharpoonup> double)"
where
  "cost_cell f c I P =
     for_each (\<lambda>i. for_each (\<lambda>p cost.
         (case pattern_cost f c i p of
            Inl e \<Rightarrow> Inl e
          | Inr v \<Rightarrow> Inr (cost((i, p) \<mapsto> v)))) P) I Map.empty"

text \<open>
  \<^verbatim>\<open>m.setObjective(quicksum(cost[i, p] * l[i, p] for i in I for p in P), GRB.MINIMIZE)\<close>:
  the generator looks every cost up and multiplies it with its variable; the
  coefficients then go to the solver. The notebook does not decide what the solver does
  with a coefficient that is not finite (which takes a cost beyond the double range);
  the model lets it refuse the objective with \<^verbatim>\<open>GurobiError\<close>.
\<close>

definition objective_cell ::
  "(var \<rightharpoonup> double) \<Rightarrow> nat list \<Rightarrow> pattern list \<Rightarrow> model \<Rightarrow> error + model"
where
  "objective_cell cost I P m =
     (case gen_list (\<lambda>v. case map_get cost v of Inl e \<Rightarrow> Inl e | Inr d \<Rightarrow> Inr (d, v))
             (pairs I P) of
        Inl e \<Rightarrow> Inl e
      | Inr ts \<Rightarrow>
          (case gen_list (\<lambda>t. case fst t of Finite k \<Rightarrow> Inr (k, snd t) | _ \<Rightarrow> Inl GurobiError)
                  ts of
             Inl e \<Rightarrow> Inl e
           | Inr ks \<Rightarrow> Inr (setObjective ks m)))"

text \<open>
  The condition \<^verbatim>\<open>sum(b[j] for j in list(p)) > C[i]\<close>, its left operand first.
\<close>

definition exceeds :: "int list \<Rightarrow> int list \<Rightarrow> nat \<Rightarrow> pattern \<Rightarrow> error + bool" where
  "exceeds b C i p =
     (case sum_gen (tuple_get b) p of
        Inl e \<Rightarrow> Inl e
      | Inr d \<Rightarrow> (case tuple_get C i of Inl e \<Rightarrow> Inl e | Inr cap \<Rightarrow> Inr (d > cap)))"

text \<open>
  \<^verbatim>\<open>for i in I: for p in P: if sum(b[j] for j in list(p)) > C[i]: m.addConstr(l[i, p] == 0)\<close>
\<close>

definition capacity_cell ::
  "int list \<Rightarrow> int list \<Rightarrow> nat list \<Rightarrow> pattern list \<Rightarrow> model \<Rightarrow> error + model"
where
  "capacity_cell b C I P m =
     for_each (\<lambda>i. for_each (\<lambda>p m.
         (case exceeds b C i p of
            Inl e \<Rightarrow> Inl e
          | Inr t \<Rightarrow> Inr (if t then addConstr (Eq [(i, p)] 0) m else m))) P) I m"

text \<open>\<^verbatim>\<open>for i in I: m.addConstr(quicksum(l[i, p] for p in P) == 1)\<close>\<close>

definition one_pattern_cell :: "nat list \<Rightarrow> pattern list \<Rightarrow> model \<Rightarrow> model" where
  "one_pattern_cell I P m = fold (\<lambda>i. addConstr (Eq (map (Pair i) P) 1)) I m"

text \<open>
  \<^verbatim>\<open>for j in J: m.addConstr(quicksum(l[i, p] for i in I for p in P if j in list(p)) == 1)\<close>
\<close>

definition coverage_cell :: "nat list \<Rightarrow> nat list \<Rightarrow> pattern list \<Rightarrow> model \<Rightarrow> model" where
  "coverage_cell I J P m =
     fold (\<lambda>j. addConstr
       (Eq (pairs I (filter (\<lambda>p. j \<in> set p) P)) 1)) J m"

text \<open>
  The whole notebook, cell after cell. A cell that raises ends the run; the model object
  exists from the cell after the data cell on. A run that raises nowhere ends in
  \<^verbatim>\<open>m.optimize()\<close> on the model built.
\<close>

datatype cell = DataCell | CostCell | ObjectiveCell | CapacityCell

datatype outcome = Raised error cell | Optimize model

definition run ::
  "nat list \<Rightarrow> nat list \<Rightarrow> int list \<Rightarrow> int list \<Rightarrow> int list \<Rightarrow> conn_dict \<Rightarrow> outcome"
where
  "run I J b f C c =
     (case data_cell I J b f C c of
        Inl e \<Rightarrow> Raised e DataCell
      | Inr P \<Rightarrow>
          (let m = vars_cell I P Model in
           case cost_cell f c I P of
             Inl e \<Rightarrow> Raised e CostCell
           | Inr cost \<Rightarrow>
               (case objective_cell cost I P m of
                  Inl e \<Rightarrow> Raised e ObjectiveCell
                | Inr m \<Rightarrow>
                    (case capacity_cell b C I P m of
                       Inl e \<Rightarrow> Raised e CapacityCell
                     | Inr m \<Rightarrow> Optimize (coverage_cell I J P (one_pattern_cell I P m))))))"

text \<open>Whether the model object exists when the given cell runs.\<close>

fun model_constructed :: "cell \<Rightarrow> bool" where
  "model_constructed DataCell = False"
| "model_constructed CostCell = True"
| "model_constructed ObjectiveCell = True"
| "model_constructed CapacityCell = True"

subsection \<open>What the model means\<close>

text \<open>
  An assignment gives every variable an integer. It is feasible for a model when every
  variable of the model is binary and every constraint holds.
\<close>

fun holds :: "(var \<Rightarrow> int) \<Rightarrow> constr \<Rightarrow> bool" where
  "holds x (Eq vs r) = (sum_list (map x vs) = r)"

definition feasible :: "model \<Rightarrow> (var \<Rightarrow> int) \<Rightarrow> bool" where
  "feasible m x =
     ((\<forall>v \<in> set (vars m). x v = 0 \<or> x v = 1) \<and> (\<forall>k \<in> set (constrs m). holds x k))"

definition objective_value :: "model \<Rightarrow> (var \<Rightarrow> int) \<Rightarrow> int" where
  "objective_value m x = sum_list (map (\<lambda>(k, v). k * x v) (objective m))"

subsection \<open>The instance of the notebook\<close>

definition ex_I :: "nat list" where "ex_I = [0..<3]"

definition ex_J :: "nat list" where "ex_J = [0..<5]"

definition ex_b :: "int list" where "ex_b = [5, 7, 10, 14, 11]"

definition ex_f :: "int list" where "ex_f = [5, 11, 9]"

definition ex_C :: "int list" where "ex_C = [10, 20, 20]"

definition ex_c :: conn_dict where
  "ex_c = [((0, 0), 2), ((0, 1), 7), ((0, 2), 7), ((0, 3), 8), ((0, 4), 8), ((1, 0), 7),
     ((1, 1), 2), ((1, 2), 4), ((1, 3), 7), ((1, 4), 2), ((2, 0), 2), ((2, 1), 2),
     ((2, 2), 2), ((2, 3), 4), ((2, 4), 8)]"

text \<open>
  An instance of the same sizes whose connection-cost dictionary has 15 keys, one of
  them outside \<open>I \<times> J\<close>: the key \<open>(2, 5)\<close> stands where \<open>(2, 4)\<close> should.
\<close>

definition gap_c :: conn_dict where
  "gap_c = [((0, 0), 2), ((0, 1), 7), ((0, 2), 7), ((0, 3), 8), ((0, 4), 8), ((1, 0), 7),
     ((1, 1), 2), ((1, 2), 4), ((1, 3), 7), ((1, 4), 2), ((2, 0), 2), ((2, 1), 2),
     ((2, 2), 2), ((2, 3), 4), ((2, 5), 8)]"

subsection \<open>The model in closed form\<close>

text \<open>
  The value of a pattern cost that was computed and is finite, the truth of a capacity
  test that was evaluated, and the model a run without exception builds, written without loops. They
  serve the proofs: \<open>run_Optimize\<close> shows that a run ending in \<^verbatim>\<open>optimize\<close> builds
  exactly \<open>built\<close>.
\<close>

definition cost_of :: "int list \<Rightarrow> conn_dict \<Rightarrow> var \<Rightarrow> int" where
  "cost_of f c v = (case pattern_cost f c (fst v) (snd v) of Inr (Finite k) \<Rightarrow> k | _ \<Rightarrow> 0)"

definition over :: "int list \<Rightarrow> int list \<Rightarrow> var \<Rightarrow> bool" where
  "over b C v = (exceeds b C (fst v) (snd v) = Inr True)"

definition built ::
  "nat list \<Rightarrow> nat list \<Rightarrow> int list \<Rightarrow> int list \<Rightarrow> int list \<Rightarrow> conn_dict \<Rightarrow> model"
where
  "built I J b f C c =
     \<lparr>vars = pairs I (patterns J),
      objective = map (\<lambda>v. (cost_of f c v, v)) (pairs I (patterns J)),
      constrs =
        map (\<lambda>v. Eq [v] 0) (filter (over b C) (pairs I (patterns J))) @
        map (\<lambda>i. Eq (map (Pair i) (patterns J)) 1) I @
        map (\<lambda>j. Eq (pairs I (filter (\<lambda>p. j \<in> set p) (patterns J))) 1) J\<rparr>"

definition ex_model :: model where
  "ex_model = built ex_I ex_J ex_b ex_f ex_C ex_c"

text \<open>
  An assignment for the instance of the notebook: facility 0 serves customer 2,
  facility 1 serves customers 1 and 4, facility 2 serves customers 0 and 3.
\<close>

definition ex_opt :: "var \<Rightarrow> int" where
  "ex_opt v = (if v = (0, [2]) \<or> v = (1, [1, 4]) \<or> v = (2, [0, 3]) then 1 else 0)"

subsection \<open>Malformed input, in the words of the specification\<close>

text \<open>
  The specification calls an input malformed when the demand tuple's length differs from
  \<open>|J|\<close>, the opening-cost or the capacity tuple's length differs from \<open>|I|\<close>, or the
  connection-cost mapping misses an entry for a pair of \<open>I \<times> J\<close>.
\<close>

definition malformed ::
  "nat list \<Rightarrow> nat list \<Rightarrow> int list \<Rightarrow> int list \<Rightarrow> int list \<Rightarrow> conn_dict \<Rightarrow> bool"
where
  "malformed I J b f C c =
     (length b \<noteq> length J \<or> length f \<noteq> length I \<or> length C \<noteq> length I \<or>
      (\<exists>i \<in> set I. \<exists>j \<in> set J. map_of c (i, j) = None))"

section \<open>Loops and cells in closed form\<close>

subsection \<open>Loops\<close>

lemma for_each_append:
  "for_each body (xs @ ys) s =
     (case for_each body xs s of Inl e \<Rightarrow> Inl e | Inr s' \<Rightarrow> for_each body ys s')"
  by (induction xs arbitrary: s) (simp_all split: sum.splits)

lemma for_each_map: "for_each body (map h xs) s = for_each (\<lambda>x. body (h x)) xs s"
  by (induction xs arbitrary: s) (simp_all split: sum.splits)

lemma for_each_nested:
  "for_each (\<lambda>i. for_each (\<lambda>p. body (i, p)) P) I s = for_each body (pairs I P) s"
proof (induction I arbitrary: s)
  case Nil
  show ?case by (simp add: pairs_def)
next
  case (Cons i I)
  have "pairs (i # I) P = map (Pair i) P @ pairs I P"
    by (simp add: pairs_def)
  then show ?case
    by (simp add: for_each_append for_each_map Cons.IH split: sum.splits)
qed

lemma gen_list_Inr: "gen_list g xs = Inr ys \<longleftrightarrow> map g xs = map Inr ys"
proof (induction xs arbitrary: ys)
  case Nil
  show ?case by auto
next
  case (Cons x xs)
  show ?case
    by (cases ys) (auto simp: Cons.IH [symmetric] split: sum.splits)
qed

lemma fold_addVar: "fold (\<lambda>p. addVar (h p)) ps m = m\<lparr>vars := vars m @ map h ps\<rparr>"
  by (induction ps arbitrary: m) (simp_all add: addVar_def)

lemma fold_addConstr:
  "fold (\<lambda>i. addConstr (h i)) xs m = m\<lparr>constrs := constrs m @ map h xs\<rparr>"
  by (induction xs arbitrary: m) (simp_all add: addConstr_def)

lemma vars_cell_eq: "vars_cell I P m = m\<lparr>vars := vars m @ pairs I P\<rparr>"
  unfolding vars_cell_def
  by (induction I arbitrary: m) (simp_all add: fold_addVar pairs_def)

lemma one_pattern_cell_eq:
  "one_pattern_cell I P m = m\<lparr>constrs := constrs m @ map (\<lambda>i. Eq (map (Pair i) P) 1) I\<rparr>"
  by (simp add: one_pattern_cell_def fold_addConstr)

lemma coverage_cell_eq:
  "coverage_cell I J P m =
     m\<lparr>constrs := constrs m @ map (\<lambda>j. Eq (pairs I (filter (\<lambda>p. j \<in> set p) P)) 1) J\<rparr>"
  by (simp add: coverage_cell_def fold_addConstr)

subsection \<open>The cost loop\<close>

lemma cost_loop_frame:
  assumes "for_each (\<lambda>v cost. case g v of Inl e \<Rightarrow> Inl e | Inr k \<Rightarrow> Inr (cost(v \<mapsto> k)))
             vs cost0 = Inr cost"
    and "v \<notin> set vs"
  shows "cost v = cost0 v"
  using assms by (induction vs arbitrary: cost0) (auto split: sum.splits)

lemma cost_loop:
  assumes "for_each (\<lambda>v cost. case g v of Inl e \<Rightarrow> Inl e | Inr k \<Rightarrow> Inr (cost(v \<mapsto> k)))
             vs cost0 = Inr cost"
    and "v \<in> set vs"
  shows "\<exists>k. g v = Inr k \<and> cost v = Some k"
  using assms
proof (induction vs arbitrary: cost0)
  case Nil
  then show ?case by simp
next
  case (Cons w ws)
  from Cons.prems(1) obtain k where k: "g w = Inr k"
    and rest: "for_each (\<lambda>v cost. case g v of Inl e \<Rightarrow> Inl e | Inr k \<Rightarrow> Inr (cost(v \<mapsto> k)))
                 ws (cost0(w \<mapsto> k)) = Inr cost"
    by (auto split: sum.splits)
  show ?case
  proof (cases "v \<in> set ws")
    case True
    with rest show ?thesis by (rule Cons.IH)
  next
    case False
    with Cons.prems(2) have "v = w" by simp
    with False k cost_loop_frame [OF rest, of w] show ?thesis by simp
  qed
qed

lemma cost_cell_pairs:
  "cost_cell f c I P =
     for_each (\<lambda>v cost. case pattern_cost f c (fst v) (snd v) of
                 Inl e \<Rightarrow> Inl e | Inr k \<Rightarrow> Inr (cost(v \<mapsto> k))) (pairs I P) Map.empty"
  unfolding cost_cell_def
  using for_each_nested
    [of "\<lambda>v cost. case pattern_cost f c (fst v) (snd v) of
           Inl e \<Rightarrow> Inl e | Inr k \<Rightarrow> Inr (cost(v \<mapsto> k))" P I Map.empty]
  by simp

lemma cost_cell_entry:
  assumes "cost_cell f c I P = Inr cost" and "v \<in> set (pairs I P)"
  shows "\<exists>k. pattern_cost f c (fst v) (snd v) = Inr k \<and> cost v = Some k"
  using assms unfolding cost_cell_pairs by (rule cost_loop)

lemma in_pairs: "(i, p) \<in> set (pairs I P) \<longleftrightarrow> i \<in> set I \<and> p \<in> set P"
  by (auto simp: pairs_def)

subsection \<open>The capacity loop\<close>

lemma capacity_loop:
  assumes "for_each (\<lambda>v m. case g v of Inl e \<Rightarrow> Inl e
             | Inr t \<Rightarrow> Inr (if t then addConstr (Eq [v] 0) m else m)) vs m0 = Inr m"
  shows "(\<forall>v \<in> set vs. \<exists>t. g v = Inr t) \<and>
         m = m0\<lparr>constrs := constrs m0 @ map (\<lambda>v. Eq [v] 0) (filter (\<lambda>v. g v = Inr True) vs)\<rparr>"
  using assms
proof (induction vs arbitrary: m0)
  case Nil
  then show ?case by simp
next
  case (Cons w ws)
  from Cons.prems obtain t where t: "g w = Inr t"
    and rest: "for_each (\<lambda>v m. case g v of Inl e \<Rightarrow> Inl e
                 | Inr t \<Rightarrow> Inr (if t then addConstr (Eq [v] 0) m else m))
                 ws (if t then addConstr (Eq [w] 0) m0 else m0) = Inr m"
    by (auto split: sum.splits)
  from Cons.IH [OF rest] t show ?case
    by (cases t) (auto simp: addConstr_def)
qed

lemma capacity_cell_pairs:
  "capacity_cell b C I P m =
     for_each (\<lambda>v m. case exceeds b C (fst v) (snd v) of Inl e \<Rightarrow> Inl e
       | Inr t \<Rightarrow> Inr (if t then addConstr (Eq [v] 0) m else m)) (pairs I P) m"
  unfolding capacity_cell_def
  using for_each_nested
    [of "\<lambda>v m. case exceeds b C (fst v) (snd v) of Inl e \<Rightarrow> Inl e
           | Inr t \<Rightarrow> Inr (if t then addConstr (Eq [v] 0) m else m)" P I m]
  by simp

lemma capacity_cell_Inr:
  assumes "capacity_cell b C I P m0 = Inr m"
  shows "(\<forall>v \<in> set (pairs I P). \<exists>t. exceeds b C (fst v) (snd v) = Inr t) \<and>
         m = m0\<lparr>constrs := constrs m0 @ map (\<lambda>v. Eq [v] 0) (filter (over b C) (pairs I P))\<rparr>"
  using capacity_loop [OF assms [unfolded capacity_cell_pairs]]
  by (simp add: over_def [abs_def])

subsection \<open>The objective\<close>

lemma objective_terms:
  assumes "\<forall>v \<in> set vs. \<exists>d. pattern_cost f c (fst v) (snd v) = Inr d \<and> cost v = Some d"
    and "gen_list (\<lambda>v. case map_get cost v of Inl e \<Rightarrow> Inl e | Inr d \<Rightarrow> Inr (d, v)) vs = Inr ts"
    and "gen_list (\<lambda>t. case fst t of Finite k \<Rightarrow> Inr (k, snd t) | _ \<Rightarrow> Inl GurobiError) ts
           = Inr ks"
  shows "ks = map (\<lambda>v. (cost_of f c v, v)) vs"
  using assms
proof (induction vs arbitrary: ts ks)
  case Nil
  then show ?case by auto
next
  case (Cons w ws)
  from Cons.prems(1) obtain d where d: "pattern_cost f c (fst w) (snd w) = Inr d"
    and cw: "cost w = Some d"
    by auto
  from Cons.prems(2) cw obtain ts' where ts: "ts = (d, w) # ts'"
    and ts': "gen_list (\<lambda>v. case map_get cost v of Inl e \<Rightarrow> Inl e | Inr d \<Rightarrow> Inr (d, v)) ws
                = Inr ts'"
    by (auto simp: map_get_def split: sum.splits)
  from Cons.prems(3) ts obtain k ks' where k: "d = Finite k" and ks: "ks = (k, w) # ks'"
    and ks': "gen_list (\<lambda>t. case fst t of Finite k \<Rightarrow> Inr (k, snd t) | _ \<Rightarrow> Inl GurobiError) ts'
                = Inr ks'"
    by (auto split: sum.splits double.splits)
  from Cons.prems(1) have "\<forall>v \<in> set ws. \<exists>d. pattern_cost f c (fst v) (snd v) = Inr d \<and> cost v = Some d"
    by simp
  from Cons.IH [OF this ts' ks'] d k ks show ?case
    by (simp add: cost_of_def)
qed

lemma objective_cell_Inr:
  assumes "cost_cell f c I P = Inr cost" and "objective_cell cost I P m0 = Inr m"
  shows "m = m0\<lparr>objective := map (\<lambda>v. (cost_of f c v, v)) (pairs I P)\<rparr>"
proof -
  from assms(2) obtain ts ks where
    ts: "gen_list (\<lambda>v. case map_get cost v of Inl e \<Rightarrow> Inl e | Inr d \<Rightarrow> Inr (d, v)) (pairs I P)
           = Inr ts"
    and ks: "gen_list (\<lambda>t. case fst t of Finite k \<Rightarrow> Inr (k, snd t) | _ \<Rightarrow> Inl GurobiError) ts
           = Inr ks"
    and m: "m = setObjective ks m0"
    by (auto simp: objective_cell_def split: sum.splits)
  have "\<forall>v \<in> set (pairs I P). \<exists>d. pattern_cost f c (fst v) (snd v) = Inr d \<and> cost v = Some d"
    using cost_cell_entry [OF assms(1)] by blast
  from objective_terms [OF this ts ks] m show ?thesis
    by (simp add: setObjective_def)
qed

subsection \<open>The run\<close>

lemma run_Optimize:
  assumes "run I J b f C c = Optimize m"
  shows "m = built I J b f C c"
    and "length J = length b" and "length I = length f" and "length f = length C"
    and "dict_len c = length I * length J"
    and "\<And>v. v \<in> set (pairs I (patterns J)) \<Longrightarrow>
           \<exists>k. pattern_cost f c (fst v) (snd v) = Inr k"
    and "\<And>v. v \<in> set (pairs I (patterns J)) \<Longrightarrow> \<exists>t. exceeds b C (fst v) (snd v) = Inr t"
proof -
  let ?P = "patterns J"
  from assms have data: "data_cell I J b f C c = Inr ?P"
    by (auto simp: run_def data_cell_def Let_def split: sum.splits if_splits)
  then show "length J = length b" "length I = length f" "length f = length C"
    "dict_len c = length I * length J"
    by (auto simp: data_cell_def Let_def split: if_splits)
  from assms data obtain cost m1 m2 where
    cost: "cost_cell f c I ?P = Inr cost"
    and m1: "objective_cell cost I ?P (vars_cell I ?P Model) = Inr m1"
    and m2: "capacity_cell b C I ?P m1 = Inr m2"
    and m: "m = coverage_cell I J ?P (one_pattern_cell I ?P m2)"
    by (auto simp: run_def Let_def split: sum.splits)
  show "\<exists>k. pattern_cost f c (fst v) (snd v) = Inr k" if "v \<in> set (pairs I ?P)" for v
    using cost_cell_entry [OF cost that] by blast
  show "\<exists>t. exceeds b C (fst v) (snd v) = Inr t" if "v \<in> set (pairs I ?P)" for v
    using capacity_cell_Inr [OF m2] that by blast
  show "m = built I J b f C c"
    using objective_cell_Inr [OF cost m1] capacity_cell_Inr [OF m2] m
    by (simp add: built_def vars_cell_eq one_pattern_cell_eq coverage_cell_eq Model_def)
qed

section \<open>Input validation\<close>

text \<open>
  Claim C6, as stated: every malformed input raises a data-validation error before any
  model is constructed. It fails on a dictionary of the right size with a wrong key:
  for one facility, one customer and the single entry \<open>(1, 1)\<close> the three assertions
  pass, and the run ends with \<^verbatim>\<open>KeyError\<close> in the cost cell, where the model object and
  its variables already exist.
\<close>

theorem validation_counterexample:
  "malformed [0] [0] [1] [1] [1] [((1, 1), 5)] \<and>
   run [0] [0] [1] [1] [1] [((1, 1), 5)] = Raised KeyError CostCell \<and>
   run [0] [0] [1] [1] [1] [((1, 1), 5)] \<noteq> Raised AssertionError DataCell \<and>
   model_constructed CostCell"
  by code_simp

text \<open>
  Claim C6, amended: when the demand tuple's length differs from \<open>|J|\<close>, or the
  opening-cost or capacity tuple's length differs from \<open>|I|\<close>, or the number of keys of
  the connection-cost dictionary differs from \<open>|I| * |J|\<close>, the run raises
  \<^verbatim>\<open>AssertionError\<close> in the data cell, before the model object exists (and so before
  any solver call).
\<close>

theorem length_checks_fail_fast:
  assumes "length b \<noteq> length J \<or> length f \<noteq> length I \<or> length C \<noteq> length I \<or>
           dict_len c \<noteq> length I * length J"
  shows "run I J b f C c = Raised AssertionError DataCell \<and> \<not> model_constructed DataCell"
  using assms by (auto simp: run_def data_cell_def Let_def)

text \<open>
  The notebook's instance with a demand tuple of four entries.
\<close>

theorem length_checks_fail_fast_witness:
  "length [5, 7, 10, 14 :: int] \<noteq> length ex_J \<and>
   run ex_I ex_J [5, 7, 10, 14] ex_f ex_C ex_c = Raised AssertionError DataCell"
proof -
  have h: "length [5, 7, 10, 14 :: int] \<noteq> length ex_J"
    by (simp add: ex_J_def)
  from h length_checks_fail_fast [of "[5, 7, 10, 14]" ex_J ex_f ex_I ex_C ex_c]
  show ?thesis by blast
qed

text \<open>
  Claim C9: the validation checks the size of the connection-cost dictionary, not its
  keys. There is an input whose dictionary has exactly \<open>|I| * |J|\<close> keys and lacks the
  entry of a pair \<open>(i, j)\<close> of \<open>I \<times> J\<close>, on which the three assertions pass and the run
  ends with \<^verbatim>\<open>KeyError\<close> in the cost cell.
\<close>

theorem size_check_misses_absent_key:
  "\<exists>I J b f C c.
     dict_len c = length I * length J \<and>
     (\<exists>i \<in> set I. \<exists>j \<in> set J. dict_get c (i, j) = Inl KeyError) \<and>
     data_cell I J b f C c = Inr (patterns J) \<and>
     run I J b f C c = Raised KeyError CostCell \<and>
     model_constructed CostCell"
proof -
  have size: "dict_len gap_c = length ex_I * length ex_J"
    by code_simp
  have absent: "\<exists>i \<in> set ex_I. \<exists>j \<in> set ex_J. dict_get gap_c (i, j) = Inl KeyError"
    by code_simp
  have asserts: "data_cell ex_I ex_J ex_b ex_f ex_C gap_c = Inr (patterns ex_J)"
    by code_simp
  have raised: "run ex_I ex_J ex_b ex_f ex_C gap_c = Raised KeyError CostCell"
    by code_simp
  from size absent asserts raised show ?thesis
    by (intro exI [of _ ex_I] exI [of _ ex_J] exI [of _ ex_b] exI [of _ ex_f]
        exI [of _ ex_C] exI [of _ gap_c]) simp
qed

section \<open>The pattern enumerator\<close>

lemma length_combinations: "length (combinations xs r) = length xs choose r"
  by (induction xs r rule: combinations.induct) simp_all

lemma Nil_in_subseqs: "[] \<in> set (subseqs xs)"
  by (induction xs) (simp_all add: Let_def)

lemma subseqs_set_subset: "ys \<in> set (subseqs xs) \<Longrightarrow> set ys \<subseteq> set xs"
  using subseqs_powset [of xs] by blast

lemma subseqs_length_le: "ys \<in> set (subseqs xs) \<Longrightarrow> length ys \<le> length xs"
  by (induction xs arbitrary: ys) (auto simp: Let_def le_SucI)

lemma subseqs_sorted_wrt:
  "ys \<in> set (subseqs xs) \<Longrightarrow> sorted_wrt R xs \<Longrightarrow> sorted_wrt R ys"
proof (induction xs arbitrary: ys)
  case Nil
  then show ?case by simp
next
  case (Cons x xs)
  from Cons.prems(1) consider zs where "ys = x # zs" "zs \<in> set (subseqs xs)"
    | "ys \<in> set (subseqs xs)"
    by (auto simp: Let_def)
  then show ?case
  proof cases
    case 1
    with Cons.prems(2) Cons.IH [of zs] subseqs_set_subset [of zs xs] show ?thesis
      by auto
  next
    case 2
    with Cons.prems(2) Cons.IH [of ys] show ?thesis by simp
  qed
qed

lemma set_combinations:
  "set (combinations xs r) = {ys \<in> set (subseqs xs). length ys = r}"
  by (induction xs r rule: combinations.induct) (auto simp: Let_def Nil_in_subseqs)

lemma combinations_length: "p \<in> set (combinations xs r) \<Longrightarrow> length p = r"
  by (simp add: set_combinations)

lemma distinct_combinations: "distinct xs \<Longrightarrow> distinct (combinations xs r)"
proof (induction xs r rule: combinations.induct)
  case (3 x xs r)
  have "x # ys \<notin> set (combinations xs (Suc r))" for ys
  proof
    assume "x # ys \<in> set (combinations xs (Suc r))"
    then have "x # ys \<in> set (subseqs xs)"
      by (simp add: set_combinations)
    then have "set (x # ys) \<subseteq> set xs"
      by (rule subseqs_set_subset)
    with "3.prems" show False by simp
  qed
  with 3 show ?case by (auto simp: distinct_map)
qed simp_all

lemma set_patterns: "set (patterns J) = set (subseqs J)"
proof
  show "set (patterns J) \<subseteq> set (subseqs J)"
    by (auto simp: patterns_def set_combinations)
  show "set (subseqs J) \<subseteq> set (patterns J)"
  proof
    fix p assume p: "p \<in> set (subseqs J)"
    then have "length p < length J + 1"
      using subseqs_length_le [of p J] by simp
    with p have "p \<in> set (combinations J (length p))" "length p \<in> set [0..<length J + 1]"
      by (auto simp: set_combinations)
    then show "p \<in> set (patterns J)"
      unfolding patterns_def set_concat set_map by blast
  qed
qed

lemma upt_range: "set [0..<n + 1] = {..n}"
  by auto

lemma length_patterns: "length (patterns J) = 2 ^ length J"
proof -
  have "length (patterns J) = (\<Sum>r\<leftarrow>[0..<length J + 1]. length J choose r)"
    by (simp add: patterns_def length_concat comp_def length_combinations)
  also have "\<dots> = (\<Sum>r\<in>set [0..<length J + 1]. length J choose r)"
    by (rule interv_sum_list_conv_sum_set_nat)
  also have "\<dots> = (\<Sum>r\<le>length J. length J choose r)"
    by (simp only: upt_range)
  also have "\<dots> = 2 ^ length J"
    by (rule choose_row_sum)
  finally show ?thesis .
qed

text \<open>
  A concatenation of blocks \<open>g 0, g 1, ...\<close> in which every element of block \<open>r\<close> has
  measure \<open>r\<close>: no element occurs in two blocks, and the measures ascend.
\<close>

lemma distinct_concat_blocks:
  assumes "\<And>r. distinct (g r)" and "\<And>r y. y \<in> set (g r) \<Longrightarrow> h y = r"
  shows "distinct (concat (map g [0..<k]))"
proof (induction k)
  case 0
  show ?case by simp
next
  case (Suc k)
  have "set (concat (map g [0..<k])) \<inter> set (g k) = {}"
  proof (rule ccontr)
    assume "set (concat (map g [0..<k])) \<inter> set (g k) \<noteq> {}"
    then obtain y r where "r < k" "y \<in> set (g r)" "y \<in> set (g k)"
      by auto
    with assms(2) [of y r] assms(2) [of y k] show False by simp
  qed
  with Suc assms(1) show ?case by simp
qed

lemma sorted_concat_blocks:
  assumes "\<And>r y. y \<in> set (g r) \<Longrightarrow> h y = r"
  shows "sorted (map h (concat (map g [0..<k])))"
proof (induction k)
  case 0
  show ?case by simp
next
  case (Suc k)
  have "h y \<le> h z" if "y \<in> set (concat (map g [0..<k]))" "z \<in> set (g k)" for y z
  proof -
    from that(1) obtain r where "r < k" "y \<in> set (g r)" by auto
    with that(2) assms [of y r] assms [of z k] show ?thesis by simp
  qed
  moreover have "map h (g k) = replicate (length (g k)) k"
    using assms [of _ k] by (simp add: map_replicate_const [symmetric] cong: map_cong)
  then have "sorted (map h (g k))"
    by (simp add: sorted_replicate)
  ultimately show ?case using Suc by (simp add: sorted_append)
qed

lemma distinct_patterns: "distinct J \<Longrightarrow> distinct (patterns J)"
  unfolding patterns_def
  by (rule distinct_concat_blocks [where h = length])
     (simp_all add: distinct_combinations combinations_length)

lemma sorted_length_patterns: "sorted (map length (patterns J))"
  unfolding patterns_def
  by (rule sorted_concat_blocks) (simp add: combinations_length)

lemma patterns_Cons: "patterns J = [] # concat (map (combinations J) [1..<length J + 1])"
  by (simp add: patterns_def upt_rec [of 0] del: upt_Suc)

lemma inj_on_set_patterns: "distinct J \<Longrightarrow> inj_on set (set (patterns J))"
  using distinct_set_subseqs [of J] by (simp add: set_patterns distinct_map)

lemma powset_patterns: "set ` set (patterns J) = Pow (set J)"
  by (simp add: set_patterns subseqs_powset)

lemma patterns_distinct_elems: "distinct J \<Longrightarrow> p \<in> set (patterns J) \<Longrightarrow> distinct p"
  by (simp add: set_patterns subseqs_distinctD)

lemma sizes_patterns: "set (map length (patterns J)) = {..length J}"
proof
  show "set (map length (patterns J)) \<subseteq> {..length J}"
    by (auto simp: set_patterns subseqs_length_le)
  show "{..length J} \<subseteq> set (map length (patterns J))"
  proof
    fix r assume "r \<in> {..length J}"
    then have r: "r \<le> length J" by simp
    then have "0 < length (combinations J r)"
      by (simp add: length_combinations)
    then obtain p where p: "p \<in> set (combinations J r)"
      by (cases "combinations J r") auto
    then have "p \<in> set (patterns J)" "length p = r"
      by (simp_all add: set_combinations set_patterns)
    then show "r \<in> set (map length (patterns J))" by force
  qed
qed

text \<open>
  Claim C3: for a customer set \<open>J\<close> of \<open>n\<close> (distinct) customers the enumerator produces
  \<open>2 ^ n\<close> patterns; the sets they stand for are exactly the subsets of \<open>J\<close>, each once;
  the size of a pattern is the length of its tuple; the sizes ascend along the sequence
  (so the patterns are grouped by size) and range over \<open>0..n\<close>; the empty pattern comes
  first.
\<close>

theorem enumerator_power_set:
  assumes "distinct J"
  shows "length (patterns J) = 2 ^ length J \<and>
         set (map set (patterns J)) = Pow (set J) \<and>
         distinct (map set (patterns J)) \<and>
         map (\<lambda>p. card (set p)) (patterns J) = map length (patterns J) \<and>
         sorted (map length (patterns J)) \<and>
         set (map length (patterns J)) = {..length J} \<and>
         (\<exists>ps. patterns J = [] # ps)"
proof -
  have "card (set p) = length p" if "p \<in> set (patterns J)" for p
    using that assms by (simp add: patterns_distinct_elems distinct_card)
  then have "map (\<lambda>p. card (set p)) (patterns J) = map length (patterns J)"
    by simp
  moreover have "distinct (map set (patterns J))"
    using assms by (simp add: distinct_map distinct_patterns inj_on_set_patterns)
  moreover have "\<exists>ps. patterns J = [] # ps"
    using patterns_Cons [of J] by blast
  ultimately show ?thesis
    using powset_patterns [of J] sizes_patterns [of J]
    by (simp add: length_patterns sorted_length_patterns)
qed

text \<open>
  The five customers of the notebook.
\<close>

theorem enumerator_power_set_witness:
  "distinct ex_J \<and> length (patterns ex_J) = 32 \<and>
   set (map set (patterns ex_J)) = Pow (set ex_J) \<and>
   distinct (map set (patterns ex_J)) \<and>
   sorted (map length (patterns ex_J)) \<and>
   set (map length (patterns ex_J)) = {..5}"
proof -
  have d: "distinct ex_J" by (simp add: ex_J_def)
  have n: "length ex_J = 5" by (simp add: ex_J_def)
  note t = enumerator_power_set [OF d, unfolded n]
  from t have "length (patterns ex_J) = 32" by simp
  moreover from t have "set (map set (patterns ex_J)) = Pow (set ex_J)" by blast
  moreover from t have "distinct (map set (patterns ex_J))" by blast
  moreover from t have "sorted (map length (patterns ex_J))" by blast
  moreover from t have "set (map length (patterns ex_J)) = {..5}" by blast
  ultimately show ?thesis using d by blast
qed

text \<open>
  Claim C10: for a strictly increasing \<open>J\<close> (any range is), every pattern is a strictly
  increasing tuple of distinct customers of \<open>J\<close>; no two positions of the sequence hold
  the same subset; every subset of \<open>J\<close> is the set of exactly one pattern; and there
  are \<open>2 ^ |J|\<close> patterns.
\<close>

theorem patterns_canonical:
  assumes "sorted_wrt (<) (J :: 'a :: linorder list)"
  shows "(\<forall>p \<in> set (patterns J). sorted_wrt (<) p \<and> distinct p \<and> set p \<subseteq> set J) \<and>
         distinct (map set (patterns J)) \<and>
         (\<forall>S. S \<subseteq> set J \<longrightarrow> (\<exists>!p. p \<in> set (patterns J) \<and> set p = S)) \<and>
         length (patterns J) = 2 ^ card (set J)"
proof -
  from assms have d: "distinct J"
    by (simp add: strict_sorted_iff)
  have elems: "sorted_wrt (<) p \<and> distinct p \<and> set p \<subseteq> set J"
    if "p \<in> set (patterns J)" for p
    using that assms d
    by (simp add: set_patterns subseqs_sorted_wrt subseqs_distinctD subseqs_set_subset)
  have uniq: "\<exists>!p. p \<in> set (patterns J) \<and> set p = S" if "S \<subseteq> set J" for S
  proof -
    from that have "S \<in> set ` set (patterns J)"
      by (simp add: powset_patterns)
    then obtain p where "p \<in> set (patterns J)" "set p = S" by auto
    moreover have "q = p" if "q \<in> set (patterns J)" "set q = S" for q
      using inj_on_set_patterns [OF d] that calculation by (auto dest: inj_onD)
    ultimately show ?thesis by blast
  qed
  have "distinct (map set (patterns J))"
    using d by (simp add: distinct_map distinct_patterns inj_on_set_patterns)
  with elems uniq show ?thesis
    using d by (simp add: length_patterns distinct_card)
qed

text \<open>
  The five customers of the notebook and the subset \<open>{1, 3}\<close>.
\<close>

theorem patterns_canonical_witness:
  "sorted_wrt (<) ex_J \<and> [1, 3] \<in> set (patterns ex_J) \<and> {1, 3} \<subseteq> set ex_J \<and>
   sorted_wrt (<) [1, 3 :: nat] \<and>
   (\<exists>!p. p \<in> set (patterns ex_J) \<and> set p = {1, 3}) \<and>
   length (patterns ex_J) = 2 ^ card (set ex_J)"
proof -
  have s: "sorted_wrt (<) ex_J" by code_simp
  have m: "[1, 3] \<in> set (patterns ex_J)" by code_simp
  have sub: "{1, 3} \<subseteq> set ex_J" by code_simp
  note t = patterns_canonical [OF s]
  have "sorted_wrt (<) [1, 3 :: nat]"
    using bspec [OF t [THEN conjunct1] m] by (rule conjunct1)
  moreover have "\<exists>!p. p \<in> set (patterns ex_J) \<and> set p = {1, 3}"
    using t [THEN conjunct2, THEN conjunct2, THEN conjunct1, THEN spec, of "{1, 3}"] sub
    by (rule mp)
  moreover have "length (patterns ex_J) = 2 ^ card (set ex_J)"
    by (rule t [THEN conjunct2, THEN conjunct2, THEN conjunct2])
  ultimately show ?thesis using s m sub by (intro conjI)
qed

section \<open>Feasible assignments\<close>

subsection \<open>Binary variables that sum to one\<close>

lemma select_one:
  assumes "distinct ps" and "\<forall>p \<in> set ps. g p = 0 \<or> g p = (1::int)"
    and "sum_list (map g ps) = 1"
  shows "\<exists>q \<in> set ps. \<forall>p \<in> set ps. g p = (if p = q then 1 else 0)"
  using assms
proof (induction ps)
  case Nil
  then show ?case by simp
next
  case (Cons a ps)
  from Cons.prems(2) consider "g a = 1" | "g a = 0" by auto
  then show ?case
  proof cases
    case 1
    with Cons.prems(3) have "sum_list (map g ps) = 0" by simp
    moreover from Cons.prems(2) have "\<forall>v \<in> set (map g ps). 0 \<le> v" by auto
    ultimately have "\<forall>v \<in> set (map g ps). v = 0"
      by (simp only: sum_list_nonneg_eq_0_iff)
    with 1 Cons.prems(1) show ?thesis by auto
  next
    case 2
    with Cons.prems have "\<exists>q \<in> set ps. \<forall>p \<in> set ps. g p = (if p = q then 1 else 0)"
      by (intro Cons.IH) simp_all
    then obtain q where "q \<in> set ps" "\<forall>p \<in> set ps. g p = (if p = q then 1 else 0)"
      by blast
    with 2 Cons.prems(1) show ?thesis by auto
  qed
qed

lemma sum_list_indicator_absent:
  "q \<notin> set ps \<Longrightarrow> sum_list (map (\<lambda>p. w p * (if p = q then 1 else 0)) ps) = (0 :: int)"
  by (induction ps) auto

lemma sum_list_indicator:
  assumes "distinct ps" and "q \<in> set ps"
  shows "sum_list (map (\<lambda>p. w p * (if p = q then 1 else 0)) ps) = (w q :: int)"
  using assms by (induction ps) (auto simp: sum_list_indicator_absent)

lemma sum_list_selected:
  assumes "distinct ps" and "q \<in> set ps" and "\<forall>p \<in> set ps. g p = (if p = q then 1 else 0)"
  shows "sum_list (map (\<lambda>p. w p * g p) ps) = (w q :: int)"
proof -
  have eq: "map (\<lambda>p. w p * g p) ps = map (\<lambda>p. w p * (if p = q then 1 else 0)) ps"
  proof (rule map_cong [OF refl])
    fix p assume "p \<in> set ps"
    with assms(3) have "g p = (if p = q then 1 else 0)" by blast
    then show "w p * g p = w p * (if p = q then 1 else 0)" by (simp only:)
  qed
  show ?thesis
    unfolding eq by (rule sum_list_indicator [OF assms(1,2)])
qed

lemma sum_list_filter_weight:
  "sum_list (map g (filter Q ps)) = sum_list (map (\<lambda>p. (if Q p then 1 else 0) * g p) ps)"
  for g :: "'a \<Rightarrow> int"
  by (induction ps) simp_all

lemma sum_list_pairs:
  "sum_list (map h (pairs I P)) = sum_list (map (\<lambda>i. sum_list (map (\<lambda>p. h (i, p)) P)) I)"
  for h :: "var \<Rightarrow> int"
  by (induction I) (simp_all add: pairs_def comp_def)

subsection \<open>Feasible assignments select one pattern per facility\<close>

lemma built_simps:
  "vars (built I J b f C c) = pairs I (patterns J)"
  "objective (built I J b f C c) = map (\<lambda>v. (cost_of f c v, v)) (pairs I (patterns J))"
  "set (constrs (built I J b f C c)) =
     (\<lambda>v. Eq [v] 0) ` {v \<in> set (pairs I (patterns J)). over b C v} \<union>
     (\<lambda>i. Eq (map (Pair i) (patterns J)) 1) ` set I \<union>
     (\<lambda>j. Eq (pairs I (filter (\<lambda>p. j \<in> set p) (patterns J))) 1) ` set J"
  by (auto simp: built_def)

lemma ball_pairs: "(\<forall>v \<in> set (pairs I P). Q v) \<longleftrightarrow> (\<forall>i \<in> set I. \<forall>p \<in> set P. Q (i, p))"
  by (auto simp: pairs_def)

lemma feasible_built:
  "feasible (built I J b f C c) x \<longleftrightarrow>
     (\<forall>i \<in> set I. \<forall>p \<in> set (patterns J). x (i, p) = 0 \<or> x (i, p) = 1) \<and>
     (\<forall>i \<in> set I. \<forall>p \<in> set (patterns J). over b C (i, p) \<longrightarrow> x (i, p) = 0) \<and>
     (\<forall>i \<in> set I. sum_list (map (\<lambda>p. x (i, p)) (patterns J)) = 1) \<and>
     (\<forall>j \<in> set J. sum_list (map x (pairs I (filter (\<lambda>p. j \<in> set p) (patterns J)))) = 1)"
  unfolding feasible_def built_simps
  by (auto simp: ball_pairs ball_Un comp_def in_pairs)

lemma feasible_selection:
  assumes feas: "feasible (built I J b f C c) x" and dist: "distinct (patterns J)"
  shows "\<exists>sel. (\<forall>i \<in> set I. sel i \<in> set (patterns J) \<and> \<not> over b C (i, sel i) \<and>
                  (\<forall>p \<in> set (patterns J). x (i, p) = (if p = sel i then 1 else 0)))"
proof -
  have "\<exists>q. q \<in> set (patterns J) \<and> \<not> over b C (i, q) \<and>
          (\<forall>p \<in> set (patterns J). x (i, p) = (if p = q then 1 else 0))"
    if i: "i \<in> set I" for i
  proof -
    from feas i have bin: "\<forall>p \<in> set (patterns J). x (i, p) = 0 \<or> x (i, p) = 1"
      and one: "sum_list (map (\<lambda>p. x (i, p)) (patterns J)) = 1"
      by (simp_all add: feasible_built)
    from select_one [OF dist bin one] obtain q where q: "q \<in> set (patterns J)"
      and sel: "\<forall>p \<in> set (patterns J). x (i, p) = (if p = q then 1 else 0)"
      by blast
    from sel q have "x (i, q) = 1" by simp
    with feas i q have "\<not> over b C (i, q)"
      by (auto simp: feasible_built)
    with q sel show ?thesis by blast
  qed
  then show ?thesis by (intro bchoice) blast
qed

lemma objective_selection:
  assumes "distinct P"
    and "\<forall>i \<in> set I. sel i \<in> set P \<and> (\<forall>p \<in> set P. x (i, p) = (if p = sel i then 1 else 0))"
  shows "sum_list (map (\<lambda>v. w v * x v) (pairs I P)) =
         sum_list (map (\<lambda>i. w (i, sel i) :: int) I)"
proof -
  have "sum_list (map (\<lambda>p. w (i, p) * x (i, p)) P) = w (i, sel i)" if "i \<in> set I" for i
    using assms(2) that
    by (intro sum_list_selected [where g = "\<lambda>p. x (i, p)" and w = "\<lambda>p. w (i, p)", OF assms(1)])
      auto
  then show ?thesis
    by (simp add: sum_list_pairs cong: map_cong)
qed

lemma objective_value_built:
  "objective_value (built I J b f C c) x =
     sum_list (map (\<lambda>v. cost_of f c v * x v) (pairs I (patterns J)))"
  by (simp add: objective_value_def built_simps comp_def)

lemma coverage_selection:
  assumes "distinct P"
    and "\<forall>i \<in> set I. sel i \<in> set P \<and> (\<forall>p \<in> set P. x (i, p) = (if p = sel i then 1 else 0))"
  shows "sum_list (map x (pairs I (filter Q P))) =
         sum_list (map (\<lambda>i. if Q (sel i) then 1 else (0 :: int)) I)"
proof -
  have "sum_list (map (\<lambda>p. x (i, p)) (filter Q P)) = (if Q (sel i) then 1 else 0)"
    if "i \<in> set I" for i
  proof -
    have "sum_list (map (\<lambda>p. x (i, p)) (filter Q P)) =
          sum_list (map (\<lambda>p. (if Q p then 1 else 0) * x (i, p)) P)"
      by (rule sum_list_filter_weight)
    also have "\<dots> = (if Q (sel i) then 1 else 0)"
      using assms(2) that
      by (intro sum_list_selected [where g = "\<lambda>p. x (i, p)"
            and w = "\<lambda>p. if Q p then 1 else 0", OF assms(1)]) auto
    finally show ?thesis .
  qed
  then show ?thesis
    by (simp add: sum_list_pairs cong: map_cong)
qed

section \<open>The instance of the notebook\<close>

text \<open>The run on the instance of the notebook raises nowhere.\<close>

lemma run_ex: "run ex_I ex_J ex_b ex_f ex_C ex_c = Optimize ex_model"
proof -
  have "case run ex_I ex_J ex_b ex_f ex_C ex_c of Optimize m \<Rightarrow> True | Raised e k \<Rightarrow> False"
    by code_simp
  then obtain m where m: "run ex_I ex_J ex_b ex_f ex_C ex_c = Optimize m"
    by (auto split: outcome.splits)
  from run_Optimize(1) [OF m] m show ?thesis
    by (simp add: ex_model_def)
qed

lemma ex_opt_feasible: "feasible ex_model ex_opt"
  by code_simp

lemma ex_opt_value: "objective_value ex_model ex_opt = 42"
  by code_simp

text \<open>
  The patterns each facility can hold, and the search through the \<open>4 * 12 * 12\<close>
  triples of them: every triple that covers each customer exactly once costs at least 42.
\<close>

lemma ex_fits_0:
  "filter (\<lambda>q. \<not> over ex_b ex_C (0, q)) (patterns ex_J) = [[], [0], [1], [2]]"
  by code_simp

lemma ex_fits_1:
  "filter (\<lambda>q. \<not> over ex_b ex_C (1, q)) (patterns ex_J) =
     [[], [0], [1], [2], [3], [4], [0, 1], [0, 2], [0, 3], [0, 4], [1, 2], [1, 4]]"
  by code_simp

lemma ex_fits_2:
  "filter (\<lambda>q. \<not> over ex_b ex_C (2, q)) (patterns ex_J) =
     [[], [0], [1], [2], [3], [4], [0, 1], [0, 2], [0, 3], [0, 4], [1, 2], [1, 4]]"
  by code_simp

lemma ex_search:
  "\<forall>q0 \<in> set [[], [0], [1], [2]].
     \<forall>q1 \<in> set [[], [0], [1], [2], [3], [4], [0, 1], [0, 2], [0, 3], [0, 4], [1, 2], [1, 4]].
       \<forall>q2 \<in> set [[], [0], [1], [2], [3], [4], [0, 1], [0, 2], [0, 3], [0, 4], [1, 2], [1, 4]].
          (if \<forall>j \<in> set ex_J. (if j \<in> set q0 then 1 else 0) + (if j \<in> set q1 then 1 else 0) +
              (if j \<in> set q2 then 1 else (0::int)) = 1
           then 42 \<le> cost_of ex_f ex_c (0, q0) + cost_of ex_f ex_c (1, q1) +
                  cost_of ex_f ex_c (2, q2)
           else True)"
  by code_simp

lemma ex_I_list: "ex_I = [0, 1, 2]"
  by code_simp

lemma ex_lower_bound:
  assumes "feasible ex_model x"
  shows "42 \<le> objective_value ex_model x"
proof -
  let ?P = "patterns ex_J"
  have dist: "distinct ?P"
    by (rule distinct_patterns) (simp add: ex_J_def)
  from feasible_selection [OF assms [unfolded ex_model_def] dist] obtain sel where
    sel: "\<forall>i \<in> set ex_I. sel i \<in> set ?P \<and> \<not> over ex_b ex_C (i, sel i) \<and>
            (\<forall>p \<in> set ?P. x (i, p) = (if p = sel i then 1 else 0))"
    by blast
  then have sel': "\<forall>i \<in> set ex_I. sel i \<in> set ?P \<and>
            (\<forall>p \<in> set ?P. x (i, p) = (if p = sel i then 1 else 0))"
    by blast
  have fits: "sel i \<in> set (filter (\<lambda>q. \<not> over ex_b ex_C (i, q)) ?P)" if "i \<in> set ex_I" for i
    using sel that by simp
  have q0: "sel 0 \<in> set [[], [0], [1], [2]]"
    using fits [of 0] by (simp only: ex_fits_0) (simp add: ex_I_list)
  have q1: "sel 1 \<in> set [[], [0], [1], [2], [3], [4], [0, 1], [0, 2], [0, 3], [0, 4], [1, 2], [1, 4]]"
    using fits [of 1] by (simp only: ex_fits_1) (simp add: ex_I_list)
  have q2: "sel 2 \<in> set [[], [0], [1], [2], [3], [4], [0, 1], [0, 2], [0, 3], [0, 4], [1, 2], [1, 4]]"
    using fits [of 2] by (simp only: ex_fits_2) (simp add: ex_I_list)
  have cover: "(if j \<in> set (sel 0) then 1 else 0) + (if j \<in> set (sel 1) then 1 else 0) +
                 (if j \<in> set (sel 2) then 1 else (0::int)) = 1" if "j \<in> set ex_J" for j
  proof -
    from assms that
    have "sum_list (map x (pairs ex_I (filter (\<lambda>p. j \<in> set p) ?P))) = 1"
      by (simp add: ex_model_def feasible_built)
    then have "sum_list (map (\<lambda>i. if j \<in> set (sel i) then 1 else (0::int)) ex_I) = 1"
      by (simp only: coverage_selection [OF dist sel'])
    then show ?thesis by (simp add: ex_I_list)
  qed
  have "objective_value ex_model x = sum_list (map (\<lambda>i. cost_of ex_f ex_c (i, sel i)) ex_I)"
    unfolding ex_model_def objective_value_built
    by (rule objective_selection [OF dist sel'])
  also have "\<dots> = cost_of ex_f ex_c (0, sel 0) + cost_of ex_f ex_c (1, sel 1) +
                  cost_of ex_f ex_c (2, sel 2)"
    by (simp add: ex_I_list)
  finally have obj: "objective_value ex_model x =
      cost_of ex_f ex_c (0, sel 0) + cost_of ex_f ex_c (1, sel 1) + cost_of ex_f ex_c (2, sel 2)" .
  from cover have "\<forall>j \<in> set ex_J. (if j \<in> set (sel 0) then 1 else 0) +
      (if j \<in> set (sel 1) then 1 else 0) + (if j \<in> set (sel 2) then 1 else (0::int)) = 1"
    by blast
  with ex_search [rule_format, OF q0 q1 q2] obj show ?thesis
    by (simp only: if_True)
qed

text \<open>
  Claim C1: for the instance of the notebook (3 facilities with opening costs (5, 11, 9)
  and capacities (10, 20, 20); 5 customers with demands (5, 7, 10, 14, 11); the 15
  connection costs) the run builds a model whose minimum is 42: some binary assignment
  that satisfies the capacity-exclusion, one-pattern-per-facility and coverage
  constraints has objective value 42, and no such assignment has a smaller one.
\<close>

theorem example_optimum_42:
  "\<exists>m. run ex_I ex_J ex_b ex_f ex_C ex_c = Optimize m \<and>
       (\<exists>x. feasible m x \<and> objective_value m x = 42) \<and>
       (\<forall>x. feasible m x \<longrightarrow> 42 \<le> objective_value m x)"
  using run_ex ex_opt_feasible ex_opt_value ex_lower_bound by blast

text \<open>
  The assignment \<open>ex_opt\<close> is feasible, so the bound applies to it.
\<close>

theorem example_optimum_42_witness:
  "\<exists>m. run ex_I ex_J ex_b ex_f ex_C ex_c = Optimize m \<and> feasible m ex_opt \<and>
       42 \<le> objective_value m ex_opt"
proof -
  from example_optimum_42 obtain m where
    m: "run ex_I ex_J ex_b ex_f ex_C ex_c = Optimize m"
    and lb: "\<forall>x. feasible m x \<longrightarrow> 42 \<le> objective_value m x"
    by blast
  from m run_ex have "m = ex_model" by simp
  with ex_opt_feasible have "feasible m ex_opt" by simp
  with lb m show ?thesis by blast
qed

section \<open>Pattern costs and constraints\<close>

lemma gen_list_tuple_get:
  "gen_list (tuple_get t) p = Inr ds \<Longrightarrow> (\<forall>j \<in> set p. j < length t) \<and> ds = map ((!) t) p"
  by (induction p arbitrary: ds) (auto simp: tuple_get_def split: sum.splits if_splits)

lemma pattern_cost_Nil: "pattern_cost f c i [] = Inr (Finite 0)"
  by (simp add: pattern_cost_def)






lemma exceeds_Inr:
  assumes "exceeds b C i p = Inr t"
  shows "i < length C \<and> (\<forall>j \<in> set p. j < length b) \<and>
         t = (C ! i < sum_list (map ((!) b) p))"
proof -
  from assms obtain d cap where d: "sum_gen (tuple_get b) p = Inr d"
    and cap: "tuple_get C i = Inr cap" and t: "t = (cap < d)"
    by (auto simp: exceeds_def split: sum.splits)
  from d obtain ds where ds: "gen_list (tuple_get b) p = Inr ds" and "d = sum_list ds"
    by (auto simp: sum_gen_def split: sum.splits)
  with cap t gen_list_tuple_get [OF ds] show ?thesis
    by (auto simp: tuple_get_def split: if_splits)
qed

text \<open>
  Beyond \<open>2 ^ 53\<close> a sum is rounded to the nearest double, on a tie to the even one, and
  an opening cost of \<open>2 ^ 1024\<close> is beyond the double range: the run ends in the cost cell.
\<close>

lemma to_double_rounds:
  "to_double 9007199254740993 = Finite 9007199254740992"
  "to_double 9007199254740995 = Finite 9007199254740996"
  by code_simp+

lemma opening_cost_beyond_double_range:
  "run [0] [0] [1]
     [179769313486231590772930519078902473361797697894230657273430081157732675805500963132708477322407536021120113879871393357658789768814416622492847430639474124377767893424865485276302219601246094119453082952085005768838150682342462881473913110540827237163350510684586298239947245938479716304835356329624224137216]
     [1] [((0, 0), 1)] = Raised TypeError CostCell"
  by code_simp




text \<open>
  Claim C4: in the model of a run that reaches \<^verbatim>\<open>optimize\<close>, for every facility \<open>i\<close> and
  pattern \<open>p\<close> the constraint \<^verbatim>\<open>l[i, p] == 0\<close> is present exactly when the demands of the
  members of \<open>p\<close> sum to more than \<^verbatim>\<open>C[i]\<close>; when it is, every feasible assignment gives
  \<^verbatim>\<open>l[i, p]\<close> the value 0.
\<close>

theorem capacity_exclusion:
  assumes "run I J b f C c = Optimize m" and "i \<in> set I" and "p \<in> set (patterns J)"
  shows "i < length C \<and> (\<forall>j \<in> set p. j < length b) \<and>
         (Eq [(i, p)] 0 \<in> set (constrs m) \<longleftrightarrow> C ! i < sum_list (map ((!) b) p)) \<and>
         (C ! i < sum_list (map ((!) b) p) \<longrightarrow> (\<forall>x. feasible m x \<longrightarrow> x (i, p) = 0))"
proof -
  from assms(2,3) have v: "(i, p) \<in> set (pairs I (patterns J))"
    by (simp add: in_pairs)
  from run_Optimize(7) [OF assms(1) v] obtain t where t: "exceeds b C i p = Inr t"
    by auto
  note e = exceeds_Inr [OF t]
  have m: "m = built I J b f C c"
    by (rule run_Optimize(1) [OF assms(1)])
  from t e have ov: "over b C (i, p) \<longleftrightarrow> C ! i < sum_list (map ((!) b) p)"
    by (simp add: over_def)
  have mem: "Eq [(i, p)] 0 \<in> set (constrs m) \<longleftrightarrow> over b C (i, p)"
    using v unfolding m built_simps by auto
  have "x (i, p) = 0" if "over b C (i, p)" "feasible m x" for x
    using that assms(2,3) unfolding m feasible_built by blast
  with e mem ov show ?thesis by blast
qed

text \<open>
  Facility 0 of the notebook's instance has capacity 10: the pattern \<open>(0, 1)\<close> of demand
  12 is excluded, the pattern \<open>(0)\<close> of demand 5 is not.
\<close>

theorem capacity_exclusion_witness:
  "run ex_I ex_J ex_b ex_f ex_C ex_c = Optimize ex_model \<and>
   0 \<in> set ex_I \<and> [0, 1] \<in> set (patterns ex_J) \<and> [0] \<in> set (patterns ex_J) \<and>
   Eq [(0, [0, 1])] 0 \<in> set (constrs ex_model) \<and>
   Eq [(0, [0])] 0 \<notin> set (constrs ex_model) \<and>
   feasible ex_model ex_opt \<and> ex_opt (0, [0, 1]) = 0"
proof -
  have i: "0 \<in> set ex_I" by code_simp
  have p: "[0, 1] \<in> set (patterns ex_J)" by code_simp
  have q: "[0] \<in> set (patterns ex_J)" by code_simp
  have big: "ex_C ! 0 < sum_list (map ((!) ex_b) [0, 1])"
    by (simp add: ex_C_def ex_b_def)
  have small: "\<not> ex_C ! 0 < sum_list (map ((!) ex_b) [0])"
    by (simp add: ex_C_def ex_b_def)
  note tp = capacity_exclusion [OF run_ex i p]
  note tq = capacity_exclusion [OF run_ex i q]
  have a: "Eq [(0, [0, 1])] 0 \<in> set (constrs ex_model)"
    using tp [THEN conjunct2, THEN conjunct2, THEN conjunct1] big by (rule iffD2)
  have b: "Eq [(0, [0])] 0 \<notin> set (constrs ex_model)"
    using tq [THEN conjunct2, THEN conjunct2, THEN conjunct1] small by simp
  have c: "ex_opt (0, [0, 1]) = 0"
    by (rule tp [THEN conjunct2, THEN conjunct2, THEN conjunct2, THEN mp, OF big,
          THEN spec, THEN mp, OF ex_opt_feasible])
  show ?thesis
    by (intro conjI) (fact run_ex i p q a b c ex_opt_feasible)+
qed

text \<open>
  Claim C5: in every feasible assignment of the built model, for each customer \<open>j\<close> the
  variables \<^verbatim>\<open>l[i, p]\<close> over all facilities \<open>i\<close> and all patterns \<open>p\<close> that contain \<open>j\<close> sum to
  1, and for each facility \<open>i\<close> the variables \<^verbatim>\<open>l[i, p]\<close> over all patterns \<open>p\<close> sum to 1.
\<close>

theorem one_pattern_and_coverage:
  assumes "run I J b f C c = Optimize m" and "feasible m x"
  shows "(\<forall>j \<in> set J. sum_list (map x (pairs I (filter (\<lambda>p. j \<in> set p) (patterns J)))) = 1) \<and>
         (\<forall>i \<in> set I. sum_list (map (\<lambda>p. x (i, p)) (patterns J)) = 1)"
  using assms(2) unfolding run_Optimize(1) [OF assms(1)] feasible_built by blast

text \<open>
  The assignment \<open>ex_opt\<close> at customer 3 and facility 1.
\<close>

theorem one_pattern_and_coverage_witness:
  "run ex_I ex_J ex_b ex_f ex_C ex_c = Optimize ex_model \<and> feasible ex_model ex_opt \<and>
   3 \<in> set ex_J \<and> 1 \<in> set ex_I \<and>
   sum_list (map ex_opt (pairs ex_I (filter (\<lambda>p. 3 \<in> set p) (patterns ex_J)))) = 1 \<and>
   sum_list (map (\<lambda>p. ex_opt (1, p)) (patterns ex_J)) = 1"
proof -
  have j: "3 \<in> set ex_J" by code_simp
  have i: "1 \<in> set ex_I" by code_simp
  note t = one_pattern_and_coverage [OF run_ex ex_opt_feasible]
  from t [THEN conjunct1] j
  have a: "sum_list (map ex_opt (pairs ex_I (filter (\<lambda>p. 3 \<in> set p) (patterns ex_J)))) = 1"
    by (rule bspec)
  from t [THEN conjunct2] i
  have b: "sum_list (map (\<lambda>p. ex_opt (1, p)) (patterns ex_J)) = 1"
    by (rule bspec)
  show ?thesis
    by (intro conjI) (fact run_ex ex_opt_feasible j i a b)+
qed

lemma sum_list_map_zero: "(\<forall>x \<in> set xs. h x = 0) \<Longrightarrow> sum_list (map h xs) = (0::int)"
  by (induction xs) simp_all

lemma count_Nil_patterns:
  "sum_list (map (\<lambda>p. if p = [] then 1 else (0::int)) (patterns J)) = 1"
proof -
  have "p \<noteq> []" if "p \<in> set (concat (map (combinations J) [1..<length J + 1]))" for p
    using that by (auto simp: set_combinations)
  then have "sum_list (map (\<lambda>p. if p = [] then 1 else (0::int))
               (concat (map (combinations J) [1..<length J + 1]))) = 0"
    by (intro sum_list_map_zero) simp
  then show ?thesis
    by (subst patterns_Cons) simp
qed

text \<open>
  Claim C8: for a facility \<open>i\<close> whose capacity is not negative, the empty pattern is a
  pattern, no capacity-exclusion constraint fixes \<^verbatim>\<open>l[i, ()]\<close> to 0, its objective
  coefficient is 0, and choosing the empty pattern alone is a binary assignment of the
  facility's variables that satisfies its one-pattern constraint and every
  capacity-exclusion constraint of the facility.
\<close>

theorem empty_pattern_admissible:
  assumes "run I J b f C c = Optimize m" and "i \<in> set I" and "0 \<le> C ! i"
  shows "[] \<in> set (patterns J) \<and>
         Eq [(i, [])] 0 \<notin> set (constrs m) \<and>
         (0, (i, [])) \<in> set (objective m) \<and>
         (\<exists>x. (\<forall>p \<in> set (patterns J). x (i, p) = 0 \<or> x (i, p) = 1) \<and>
              x (i, []) = 1 \<and>
              holds x (Eq (map (Pair i) (patterns J)) 1) \<and>
              (\<forall>p \<in> set (patterns J). Eq [(i, p)] 0 \<in> set (constrs m) \<longrightarrow> holds x (Eq [(i, p)] 0)))"
proof -
  have nil: "[] \<in> set (patterns J)"
    by (simp add: patterns_Cons)
  with assms(2) have v: "(i, []) \<in> set (pairs I (patterns J))"
    by (simp add: in_pairs)
  have m: "m = built I J b f C c"
    by (rule run_Optimize(1) [OF assms(1)])
  from run_Optimize(7) [OF assms(1) v] obtain t where t: "exceeds b C i [] = Inr t"
    by auto
  from exceeds_Inr [OF t] assms(3) have "\<not> t" by simp
  with t have nov: "\<not> over b C (i, [])"
    by (simp add: over_def)
  then have free: "Eq [(i, [])] 0 \<notin> set (constrs m)"
    unfolding m built_simps by auto
  have "cost_of f c (i, []) = 0"
    by (simp add: cost_of_def pattern_cost_Nil)
  with v have coef: "(0, (i, [])) \<in> set (objective m)"
    unfolding m built_simps by force
  let ?x = "\<lambda>v :: var. if v = (i, []) then 1 else (0::int)"
  have "holds ?x (Eq (map (Pair i) (patterns J)) 1)"
    using count_Nil_patterns [of J] by (simp add: comp_def)
  moreover have "holds ?x (Eq [(i, p)] 0)" if "Eq [(i, p)] 0 \<in> set (constrs m)" for p
    using that free by auto
  ultimately have "(\<forall>p \<in> set (patterns J). ?x (i, p) = 0 \<or> ?x (i, p) = 1) \<and>
      ?x (i, []) = 1 \<and> holds ?x (Eq (map (Pair i) (patterns J)) 1) \<and>
      (\<forall>p \<in> set (patterns J). Eq [(i, p)] 0 \<in> set (constrs m) \<longrightarrow> holds ?x (Eq [(i, p)] 0))"
    by simp
  then have "\<exists>x. (\<forall>p \<in> set (patterns J). x (i, p) = 0 \<or> x (i, p) = 1) \<and>
              x (i, []) = 1 \<and>
              holds x (Eq (map (Pair i) (patterns J)) 1) \<and>
              (\<forall>p \<in> set (patterns J). Eq [(i, p)] 0 \<in> set (constrs m) \<longrightarrow> holds x (Eq [(i, p)] 0))"
    by (rule exI [of _ ?x])
  with nil free coef show ?thesis by blast
qed

text \<open>
  Facility 0 of the notebook's instance.
\<close>

theorem empty_pattern_admissible_witness:
  "run ex_I ex_J ex_b ex_f ex_C ex_c = Optimize ex_model \<and> 0 \<in> set ex_I \<and> 0 \<le> ex_C ! 0 \<and>
   [] \<in> set (patterns ex_J) \<and>
   Eq [(0, [])] 0 \<notin> set (constrs ex_model) \<and>
   (0, (0, [])) \<in> set (objective ex_model)"
proof -
  have i: "0 \<in> set ex_I" by code_simp
  have cap: "0 \<le> ex_C ! 0" by (simp add: ex_C_def)
  note t = empty_pattern_admissible [OF run_ex i cap]
  have a: "[] \<in> set (patterns ex_J)"
    by (rule t [THEN conjunct1])
  have b: "Eq [(0, [])] 0 \<notin> set (constrs ex_model)"
    by (rule t [THEN conjunct2, THEN conjunct1])
  have c: "(0, (0, [])) \<in> set (objective ex_model)"
    by (rule t [THEN conjunct2, THEN conjunct2, THEN conjunct1])
  show ?thesis
    by (intro conjI) (fact run_ex i cap a b c)+
qed

end
